theory Spec2Isabelle
  imports Main
begin

section \<open>Data model\<close>

text \<open>
  A job is the JSON object kept in the Redis lists. The submit handler writes
  \<^verbatim>\<open>{ name, id }\<close>; the dispatcher later adds \<^verbatim>\<open>timestamp\<close> and \<^verbatim>\<open>tries\<close>.
  A field that is absent from the object (\<^verbatim>\<open>undefined\<close> after \<^verbatim>\<open>JSON.parse\<close>)
  is \<open>None\<close>. The lists hold the \<^verbatim>\<open>JSON.stringify\<close> text of such objects, always
  with the keys in this order, so that two list elements are the same text (as
  \<^verbatim>\<open>lrem\<close> compares them) exactly when the records are equal. Name and id are
  whatever the request body carried; they are taken as strings here.
\<close>

record job =
  name :: string
  job_id :: string
  timestamp :: "int option"
  tries :: "int option"

text \<open>
  The part of Redis the program uses: the lists \<^verbatim>\<open>todo\<close> and \<^verbatim>\<open>processing\<close> and the
  keys \<^verbatim>\<open>todo-lock\<close> and \<^verbatim>\<open>processing-lock\<close>, each present or absent. A lock key is
  written with \<^verbatim>\<open>EX 10\<close>, so the store deletes it by itself ten seconds later; in
  the interleaved system below that is the event \<open>Expire\<close>. One sweep or one dispatch
  run alone is taken to finish its locked section before its key expires.
\<close>

record store =
  todo :: "job list"
  processing :: "job list"
  todo_lock :: bool
  processing_lock :: bool

datatype queue = Todo | Processing

section \<open>Redis commands\<close>

fun get_list :: "queue \<Rightarrow> store \<Rightarrow> job list" where
  "get_list Todo s = todo s"
| "get_list Processing s = processing s"

fun put_list :: "queue \<Rightarrow> job list \<Rightarrow> store \<Rightarrow> store" where
  "put_list Todo xs s = s\<lparr>todo := xs\<rparr>"
| "put_list Processing xs s = s\<lparr>processing := xs\<rparr>"

fun lock_held :: "queue \<Rightarrow> store \<Rightarrow> bool" where
  "lock_held Todo s = todo_lock s"
| "lock_held Processing s = processing_lock s"

fun put_lock :: "queue \<Rightarrow> bool \<Rightarrow> store \<Rightarrow> store" where
  "put_lock Todo b s = s\<lparr>todo_lock := b\<rparr>"
| "put_lock Processing b s = s\<lparr>processing_lock := b\<rparr>"

text \<open>\<^verbatim>\<open>RPUSH key v\<close>: append at the tail.\<close>

definition rpush :: "queue \<Rightarrow> job \<Rightarrow> store \<Rightarrow> store" where
  "rpush q v s = put_list q (get_list q s @ [v]) s"

text \<open>\<^verbatim>\<open>LINDEX key i\<close>: the element at index \<open>i\<close>, or nil.\<close>

definition lindex :: "queue \<Rightarrow> nat \<Rightarrow> store \<Rightarrow> job option" where
  "lindex q i s = (if i < length (get_list q s) then Some (get_list q s ! i) else None)"

text \<open>
  \<^verbatim>\<open>LSET key i v\<close>: overwrite index \<open>i\<close>. Out of range Redis answers with an error
  reply and changes nothing; inside \<^verbatim>\<open>MULTI\<close> the remaining commands still run.
\<close>

definition lset :: "queue \<Rightarrow> nat \<Rightarrow> job \<Rightarrow> store \<Rightarrow> store" where
  "lset q i v s = (if i < length (get_list q s) then put_list q ((get_list q s)[i := v]) s else s)"

text \<open>\<^verbatim>\<open>LMOVE src dst LEFT RIGHT\<close>: pop the head of \<open>src\<close>, push it at the tail of \<open>dst\<close>;
  nothing happens when \<open>src\<close> is empty.\<close>

definition lmove :: "queue \<Rightarrow> queue \<Rightarrow> store \<Rightarrow> store" where
  "lmove src dst s =
     (case get_list src s of
        [] \<Rightarrow> s
      | x # xs \<Rightarrow> (let s1 = put_list src xs s in put_list dst (get_list dst s1 @ [x]) s1))"

text \<open>\<^verbatim>\<open>LREM key 1 v\<close>: remove the first element equal to \<open>v\<close>.\<close>

definition lrem :: "queue \<Rightarrow> job \<Rightarrow> store \<Rightarrow> store" where
  "lrem q v s = put_list q (remove1 v (get_list q s)) s"

text \<open>\<^verbatim>\<open>LPOP key\<close>: remove the head.\<close>

definition lpop :: "queue \<Rightarrow> store \<Rightarrow> store" where
  "lpop q s = (case get_list q s of [] \<Rightarrow> s | x # xs \<Rightarrow> put_list q xs s)"

text \<open>
  \<^verbatim>\<open>acquireLock(key)\<close> polls \<^verbatim>\<open>SET key-lock locked NX EX 10\<close> until the reply is not
  null. With the key absent the poll sets it and the promise resolves; with the key
  present the promise stays pending (\<open>None\<close>) until the key is deleted, by
  \<^verbatim>\<open>releaseLock\<close> or by its expiry.
\<close>

definition acquireLock :: "queue \<Rightarrow> store \<Rightarrow> store option" where
  "acquireLock q s = (if lock_held q s then None else Some (put_lock q True s))"

text \<open>\<^verbatim>\<open>releaseLock(key)\<close>: \<^verbatim>\<open>DEL key-lock\<close>.\<close>

definition releaseLock :: "queue \<Rightarrow> store \<Rightarrow> store" where
  "releaseLock q s = put_lock q False s"

section \<open>The retry sweeper\<close>

text \<open>
  Which awaited store call of one \<^verbatim>\<open>retry()\<close> rejects, if any. The first rejection
  leaves the \<^verbatim>\<open>try\<close> block for the \<^verbatim>\<open>catch\<close>, which only logs.
\<close>

datatype retry_fault =
  No_fault | Acquire_raises | Lindex_raises | Update_raises | Release_raises

text \<open>\<^verbatim>\<open>Date.now() - Number(processing.timestamp) >= 10 * 60 * 1000\<close>; with the field
  absent the difference is NaN and the comparison is false.\<close>

definition is_stale :: "int \<Rightarrow> job \<Rightarrow> bool" where
  "is_stale now p = (case timestamp p of None \<Rightarrow> False | Some t \<Rightarrow> now - t \<ge> 10 * 60 * 1000)"

text \<open>\<^verbatim>\<open>Number(processing.tries) < 3\<close>; NaN when the field is absent, so false.\<close>

definition tries_left :: "job \<Rightarrow> bool" where
  "tries_left p = (case tries p of None \<Rightarrow> False | Some k \<Rightarrow> k < 3)"

definition release_processing :: "retry_fault \<Rightarrow> store \<Rightarrow> store" where
  "release_processing f s = (if f = Release_raises then s else releaseLock Processing s)"

definition retry :: "int \<Rightarrow> retry_fault \<Rightarrow> store \<Rightarrow> store option" where
  "retry now f s =
     (if f = Acquire_raises then Some s
      else (case acquireLock Processing s of
        None \<Rightarrow> None
      | Some s1 \<Rightarrow>
          (if f = Lindex_raises then Some s1
           else (case lindex Processing 0 s1 of
             Some p \<Rightarrow>
               (if is_stale now p then
                 (if tries_left p then
                   (if f = Update_raises then Some s1
                    else Some (release_processing f
                           (lmove Processing Todo (lset Processing 0 p s1))))
                  else
                   (if f = Update_raises then Some s1
                    else Some (release_processing f (lpop Processing s1))))
                else Some (release_processing f s1))
           | None \<Rightarrow> Some (release_processing f s1)))))"

section \<open>The submit handler\<close>

text \<open>\<^verbatim>\<open>JSON.stringify({ name, id })\<close>: an object with these two fields only.\<close>

definition new_job :: "string \<Rightarrow> string \<Rightarrow> job" where
  "new_job n i = \<lparr>name = n, job_id = i, timestamp = None, tries = None\<rparr>"

text \<open>
  \<^verbatim>\<open>app.post("/")\<close>: one \<^verbatim>\<open>rpush\<close> onto \<^verbatim>\<open>todo\<close>, in a \<^verbatim>\<open>try\<close> whose \<^verbatim>\<open>catch\<close> only
  logs; the answer to the request is the same either way. What the call does to the
  store is decided by how many times the store runs the command: \<open>0\<close> when it never
  arrives, \<open>1\<close> as a rule, \<open>2\<close> when the client, not having had the reply before the
  connection dropped, sends the command again.
\<close>

definition post_handler :: "nat \<Rightarrow> string \<Rightarrow> string \<Rightarrow> store \<Rightarrow> store" where
  "post_handler k n i s = ((rpush Todo (new_job n i)) ^^ k) s"

section \<open>The dispatcher\<close>

text \<open>
  The number the dispatcher's test \<^verbatim>\<open>copy.tries ? copy.tries + 1 : 1\<close> reads from a
  record: an absent field is falsy, like 0.
\<close>

definition attempts :: "job \<Rightarrow> int" where
  "attempts j = (case tries j of None \<Rightarrow> 0 | Some k \<Rightarrow> k)"

text \<open>Lines 83 to 85: the copy with \<^verbatim>\<open>timestamp = Date.now()\<close> and the new \<^verbatim>\<open>tries\<close>.\<close>

definition stamp :: "int \<Rightarrow> job \<Rightarrow> job" where
  "stamp now j =
     j\<lparr>timestamp := Some now,
       tries := Some (case tries j of None \<Rightarrow> 1 | Some k \<Rightarrow> if k \<noteq> 0 then k + 1 else 1)\<rparr>"

text \<open>Which awaited call of one \<^verbatim>\<open>execute()\<close> rejects, if any; \<open>Job_rejects\<close> is the job
  body itself.\<close>

datatype execute_fault =
    No_failure
  | Acquire_todo_raises
  | Lindex_todo_raises
  | Multi_raises
  | Release_todo_raises
  | Job_rejects
  | Acquire_processing_raises
  | Lrem_raises
  | Release_processing_raises

text \<open>
  The \<^verbatim>\<open>try\<close> block of \<^verbatim>\<open>execute\<close>, run with nothing else touching the store in
  between; \<open>None\<close> when a lock it waits for is never free.
\<close>

definition execute_body :: "int \<Rightarrow> execute_fault \<Rightarrow> store \<Rightarrow> store option" where
  "execute_body now f s =
     (if f = Acquire_todo_raises then Some s
      else (case acquireLock Todo s of
        None \<Rightarrow> None
      | Some s1 \<Rightarrow>
          (if f = Lindex_todo_raises then Some s1
           else (case lindex Todo 0 s1 of
             Some newProcess \<Rightarrow>
               (let copy = stamp now newProcess in
                if f = Multi_raises then Some s1
                else (let s2 = lmove Todo Processing (lset Todo 0 copy s1) in
                  if f = Release_todo_raises then Some s2
                  else (let s3 = releaseLock Todo s2 in
                    if f = Job_rejects then Some s3
                    else if f = Acquire_processing_raises then Some s3
                    else (case acquireLock Processing s3 of
                      None \<Rightarrow> None
                    | Some s4 \<Rightarrow>
                        (if f = Lrem_raises then Some s4
                         else (let s5 = lrem Processing copy s4 in
                           if f = Release_processing_raises then Some s5
                           else Some (releaseLock Processing s5)))))))
           | None \<Rightarrow>
               (if f = Release_todo_raises then Some s1
                else Some (releaseLock Todo s1))))))"

text \<open>\<^verbatim>\<open>execute\<close> with its counter: \<^verbatim>\<open>running\<close> is the first component.\<close>

definition MAX_JOBS :: int where
  "MAX_JOBS = 3"

definition execute :: "int \<Rightarrow> execute_fault \<Rightarrow> int \<times> store \<Rightarrow> (int \<times> store) option" where
  "execute now f rs =
     (case rs of (running, s) \<Rightarrow>
        if running < MAX_JOBS then
          (case execute_body now f s of
             None \<Rightarrow> None
           | Some s' \<Rightarrow> Some ((running + 1) - 1, s'))
        else Some (running, s))"

section \<open>Interleaved executions\<close>

text \<open>
  Calls of \<^verbatim>\<open>execute\<close> and \<^verbatim>\<open>retry\<close> are asynchronous: each one runs up to its next
  \<^verbatim>\<open>await\<close>, and other calls run in between. A task is a call in progress, named by
  the store command (or the job body) it is waiting for, with the local variable
  (\<^verbatim>\<open>copy\<close>, \<^verbatim>\<open>processing\<close>) it carries.
\<close>

datatype task =
    D_acquire_todo
  | D_lindex
  | D_multi job
  | D_release_todo job
  | D_release_empty
  | D_job job
  | D_acquire_processing job
  | D_lrem job
  | D_release_processing
  | R_acquire
  | R_lindex
  | R_multi job
  | R_lpop
  | R_release
  | Finished

text \<open>
  How an awaited store command ends: the store runs it and the promise resolves; the
  command never runs and the promise rejects; or the store runs it and the promise
  rejects all the same, the reply being lost with the connection. For the job body
  only resolving or not matters.
\<close>

datatype reply = Resolves | Rejects | Rejects_after

text \<open>
  One task takes its next step: the awaited command ends in one of the three ways,
  and the task runs on to its next \<^verbatim>\<open>await\<close>, or, its promise rejected, leaves the
  \<^verbatim>\<open>try\<close> block for the \<^verbatim>\<open>catch\<close>. A lock poll that finds the key present changes
  nothing and, answered with null, polls again.
\<close>

fun task_step :: "int \<Rightarrow> reply \<Rightarrow> task \<Rightarrow> store \<Rightarrow> task \<times> store" where
  "task_step now r D_acquire_todo s =
     (case acquireLock Todo s of
        None \<Rightarrow> (if r = Resolves then D_acquire_todo else Finished, s)
      | Some s1 \<Rightarrow>
          (if r = Resolves then D_lindex else Finished, if r = Rejects then s else s1))"
| "task_step now r D_lindex s =
     (if r = Resolves
      then (case lindex Todo 0 s of
              Some newProcess \<Rightarrow> (D_multi (stamp now newProcess), s)
            | None \<Rightarrow> (D_release_empty, s))
      else (Finished, s))"
| "task_step now r (D_multi copy) s =
     (if r = Resolves then D_release_todo copy else Finished,
      if r = Rejects then s else lmove Todo Processing (lset Todo 0 copy s))"
| "task_step now r (D_release_todo copy) s =
     (if r = Resolves then D_job copy else Finished,
      if r = Rejects then s else releaseLock Todo s)"
| "task_step now r D_release_empty s =
     (Finished, if r = Rejects then s else releaseLock Todo s)"
| "task_step now r (D_job copy) s =
     (if r = Resolves then D_acquire_processing copy else Finished, s)"
| "task_step now r (D_acquire_processing copy) s =
     (case acquireLock Processing s of
        None \<Rightarrow> (if r = Resolves then D_acquire_processing copy else Finished, s)
      | Some s1 \<Rightarrow>
          (if r = Resolves then D_lrem copy else Finished, if r = Rejects then s else s1))"
| "task_step now r (D_lrem copy) s =
     (if r = Resolves then D_release_processing else Finished,
      if r = Rejects then s else lrem Processing copy s)"
| "task_step now r D_release_processing s =
     (Finished, if r = Rejects then s else releaseLock Processing s)"
| "task_step now r R_acquire s =
     (case acquireLock Processing s of
        None \<Rightarrow> (if r = Resolves then R_acquire else Finished, s)
      | Some s1 \<Rightarrow>
          (if r = Resolves then R_lindex else Finished, if r = Rejects then s else s1))"
| "task_step now r R_lindex s =
     (if r = Resolves
      then (case lindex Processing 0 s of
              Some p \<Rightarrow>
                (if is_stale now p then
                   (if tries_left p then (R_multi p, s) else (R_lpop, s))
                 else (R_release, s))
            | None \<Rightarrow> (R_release, s))
      else (Finished, s))"
| "task_step now r (R_multi p) s =
     (if r = Resolves then R_release else Finished,
      if r = Rejects then s else lmove Processing Todo (lset Processing 0 p s))"
| "task_step now r R_lpop s =
     (if r = Resolves then R_release else Finished,
      if r = Rejects then s else lpop Processing s)"
| "task_step now r R_release s =
     (Finished, if r = Rejects then s else releaseLock Processing s)"
| "task_step now r Finished s = (Finished, s)"

text \<open>The calls of \<^verbatim>\<open>execute\<close> that have passed \<^verbatim>\<open>running += 1\<close> and not yet reached
  \<^verbatim>\<open>running -= 1\<close>.\<close>

fun in_dispatch :: "task \<Rightarrow> bool" where
  "in_dispatch D_acquire_todo = True"
| "in_dispatch D_lindex = True"
| "in_dispatch (D_multi c) = True"
| "in_dispatch (D_release_todo c) = True"
| "in_dispatch D_release_empty = True"
| "in_dispatch (D_job c) = True"
| "in_dispatch (D_acquire_processing c) = True"
| "in_dispatch (D_lrem c) = True"
| "in_dispatch D_release_processing = True"
| "in_dispatch t = False"

fun in_job_body :: "task \<Rightarrow> bool" where
  "in_job_body (D_job c) = True"
| "in_job_body t = False"

text \<open>One worker process and the store it talks to.\<close>

record system =
  redis :: store
  running :: int
  tasks :: "task list"

text \<open>
  What can happen next: a request arrives at the submit handler (and its \<^verbatim>\<open>rpush\<close> is
  run so many times), the dispatch timer fires (\<^verbatim>\<open>execute()\<close> up to its first
  \<^verbatim>\<open>await\<close>), the sweep timer fires, task \<open>i\<close> takes a step, reading \<open>now\<close> from
  \<^verbatim>\<open>Date.now()\<close>, or the ten seconds of a lock key are over and the store deletes it.
  A dispatch task that ends, by either way out of the \<^verbatim>\<open>try\<close>, runs
  \<^verbatim>\<open>running -= 1\<close>.
\<close>

datatype event = Post string string nat | Tick | Sweep | Run nat int reply | Expire queue

fun step :: "event \<Rightarrow> system \<Rightarrow> system" where
  "step (Post n i k) w = w\<lparr>redis := post_handler k n i (redis w)\<rparr>"
| "step Tick w =
     (if running w < MAX_JOBS
      then w\<lparr>running := running w + 1, tasks := tasks w @ [D_acquire_todo]\<rparr>
      else w)"
| "step Sweep w = w\<lparr>tasks := tasks w @ [R_acquire]\<rparr>"
| "step (Run i now r) w =
     (if i < length (tasks w) then
        (case task_step now r (tasks w ! i) (redis w) of
           (t', s') \<Rightarrow>
             w\<lparr>redis := s',
               running := (if in_dispatch (tasks w ! i) \<and> t' = Finished
                           then running w - 1 else running w),
               tasks := (tasks w)[i := t']\<rparr>)
      else w)"
| "step (Expire q) w = w\<lparr>redis := put_lock q False (redis w)\<rparr>"

fun run :: "event list \<Rightarrow> system \<Rightarrow> system" where
  "run [] w = w"
| "run (e # es) w = run es (step e w)"

definition empty_store :: store where
  "empty_store = \<lparr>todo = [], processing = [], todo_lock = False, processing_lock = False\<rparr>"

definition init :: system where
  "init = \<lparr>redis = empty_store, running = 0, tasks = []\<rparr>"

text \<open>The sweep timer firing again and again, each sweep with its own clock reading
  and its own rejection, nothing else running in between.\<close>

fun sweeps :: "(int \<times> retry_fault) list \<Rightarrow> store \<Rightarrow> store option" where
  "sweeps [] s = Some s"
| "sweeps ((now, f) # cs) s =
     (case retry now f s of None \<Rightarrow> None | Some s1 \<Rightarrow> sweeps cs s1)"

section \<open>What stays true while calls interleave\<close>

text \<open>The counter is the number of dispatch calls in progress, and within the limit.\<close>

definition counter_ok :: "system \<Rightarrow> bool" where
  "counter_ok w =
     (running w = int (length (filter in_dispatch (tasks w)))
      \<and> running w \<le> MAX_JOBS)"

text \<open>What a task is about to write into a list: the dispatcher's copy goes to
  processing, the sweeper's record goes back to todo.\<close>

fun task_tries_ok :: "task \<Rightarrow> bool" where
  "task_tries_ok (D_multi c) = (1 \<le> attempts c \<and> attempts c \<le> 3)"
| "task_tries_ok (R_multi p) = (1 \<le> attempts p \<and> attempts p < 3)"
| "task_tries_ok t = True"

text \<open>The tries a record may carry in each list: below 3 while it waits in
  \<^verbatim>\<open>todo\<close>, from 1 to 3 once claimed.\<close>

definition lists_ok :: "store \<Rightarrow> bool" where
  "lists_ok s = ((\<forall>j \<in> set (todo s). 0 \<le> attempts j \<and> attempts j < 3)
      \<and> (\<forall>j \<in> set (processing s). 1 \<le> attempts j \<and> attempts j \<le> 3))"

text \<open>The same for a whole system: the lists, and what its tasks are about to write.\<close>

definition tries_bounded :: "system \<Rightarrow> bool" where
  "tries_bounded w = (lists_ok (redis w) \<and> (\<forall>t \<in> set (tasks w). task_tries_ok t))"

text \<open>The tasks between \<^verbatim>\<open>acquireLock("todo")\<close> resolving and their
  \<^verbatim>\<open>releaseLock("todo")\<close>, and the same for \<^verbatim>\<open>processing\<close>.\<close>

fun holds_todo :: "task \<Rightarrow> bool" where
  "holds_todo D_lindex = True"
| "holds_todo (D_multi c) = True"
| "holds_todo (D_release_todo c) = True"
| "holds_todo D_release_empty = True"
| "holds_todo t = False"

fun holds_processing :: "task \<Rightarrow> bool" where
  "holds_processing (D_lrem c) = True"
| "holds_processing D_release_processing = True"
| "holds_processing R_lindex = True"
| "holds_processing (R_multi p) = True"
| "holds_processing R_lpop = True"
| "holds_processing R_release = True"
| "holds_processing t = False"

fun holds :: "queue \<Rightarrow> task \<Rightarrow> bool" where
  "holds Todo t = holds_todo t"
| "holds Processing t = holds_processing t"

text \<open>The ids of the records in the two lists, \<^verbatim>\<open>todo\<close> first.\<close>

definition queued_ids :: "store \<Rightarrow> string list" where
  "queued_ids s = map job_id (todo s @ processing s)"

text \<open>What a task about to run its transaction expects of the list it will move
  the head of.\<close>

fun head_expected :: "store \<Rightarrow> task \<Rightarrow> bool" where
  "head_expected s (D_multi c) =
     (case todo s of
        [] \<Rightarrow> False
      | j # rest \<Rightarrow> (case timestamp c of None \<Rightarrow> False | Some t \<Rightarrow> c = stamp t j))"
| "head_expected s (R_multi p) =
     (case processing s of [] \<Rightarrow> False | j # rest \<Rightarrow> p = j)"
| "head_expected s t = True"

text \<open>The lock discipline for one lock key \<open>L\<close> and the tasks \<open>P\<close> that hold it: at most
  one holder, and the key is set while there is one.\<close>

definition lock_inv :: "(task \<Rightarrow> bool) \<Rightarrow> bool \<Rightarrow> task list \<Rightarrow> bool" where
  "lock_inv P L ts =
     ((\<forall>i < length ts. \<forall>k < length ts. P (ts ! i) \<and> P (ts ! k) \<longrightarrow> i = k)
      \<and> (\<forall>i < length ts. P (ts ! i) \<longrightarrow> L))"

text \<open>Both locks are used as locks, every pending transaction will find the head it
  read, and no id is queued twice.\<close>

definition protocol_ok :: "system \<Rightarrow> bool" where
  "protocol_ok w =
     (lock_inv holds_todo (todo_lock (redis w)) (tasks w)
      \<and> lock_inv holds_processing (processing_lock (redis w)) (tasks w)
      \<and> (\<forall>i < length (tasks w). head_expected (redis w) (tasks w ! i))
      \<and> distinct (queued_ids (redis w)))"

text \<open>
  An orderly event: a submission is run by the store at most once and, when it is
  run, carries an id that no queued record has (the handler itself does not look);
  and a lock key expires only while no task is between taking and releasing that
  lock. An orderly run has orderly events only.
\<close>

fun orderly_event :: "event \<Rightarrow> system \<Rightarrow> bool" where
  "orderly_event (Post n i k) w = (k = 0 \<or> (k = 1 \<and> i \<notin> set (queued_ids (redis w))))"
| "orderly_event (Expire q) w = (\<not> list_ex (holds q) (tasks w))"
| "orderly_event e w = True"

fun orderly :: "event list \<Rightarrow> system \<Rightarrow> bool" where
  "orderly [] w = True"
| "orderly (e # es) w = (orderly_event e w \<and> orderly es (step e w))"

text \<open>The event is a claim transaction (\<^verbatim>\<open>lset\<close> and \<^verbatim>\<open>lmove\<close> on \<^verbatim>\<open>todo\<close>) that the
  store runs, with a copy of id \<open>x\<close>; the event is a submission of id \<open>x\<close> that the store
  runs; and the number of claims of id \<open>x\<close> along a run since its last submission.\<close>

fun claims_job :: "string \<Rightarrow> event \<Rightarrow> system \<Rightarrow> bool" where
  "claims_job x (Run i now r) w =
     (i < length (tasks w) \<and> r \<noteq> Rejects \<and>
      (case tasks w ! i of
         D_multi c \<Rightarrow> job_id c = x \<and> todo (redis w) \<noteq> []
       | _ \<Rightarrow> False))"
| "claims_job x e w = False"

fun submits_job :: "string \<Rightarrow> event \<Rightarrow> bool" where
  "submits_job x (Post n i k) = (i = x \<and> 0 < k)"
| "submits_job x e = False"

fun claim_count :: "string \<Rightarrow> event list \<Rightarrow> system \<Rightarrow> nat \<Rightarrow> nat" where
  "claim_count x [] w n = n"
| "claim_count x (e # es) w n =
     claim_count x es (step e w)
       (if submits_job x e then 0 else if claims_job x e w then n + 1 else n)"

text \<open>The count \<open>n\<close> for id \<open>x\<close> agrees with the store: it is at most 3, and it is the
  number of tries of every queued record with that id.\<close>

definition counted :: "string \<Rightarrow> nat \<Rightarrow> store \<Rightarrow> bool" where
  "counted x n s =
     (n \<le> 3 \<and> (\<forall>j \<in> set (todo s) \<union> set (processing s). job_id j = x \<longrightarrow> attempts j = int n))"

section \<open>One sweep, one dispatch\<close>

lemmas redis_defs =
  rpush_def lindex_def lset_def lmove_def lrem_def lpop_def acquireLock_def releaseLock_def

lemma retry_processing_cases:
  "retry now f s = Some s' \<Longrightarrow>
     processing s' = processing s \<or> processing s' = tl (processing s)"
  by (auto simp: retry_def redis_defs release_processing_def
      split: option.splits if_splits list.splits)

lemma retry_lists_cases:
  "retry now f s = Some s' \<Longrightarrow>
     (processing s' = processing s \<and> todo s' = todo s) \<or>
     (\<exists>p rest. processing s = p # rest \<and> processing s' = rest \<and>
        (todo s' = todo s \<or> todo s' = todo s @ [p]))"
  by (auto simp: retry_def redis_defs release_processing_def
      split: option.splits if_splits list.splits)

lemma sweeps_length:
  "sweeps cs s = Some s' \<Longrightarrow> length (processing s) \<le> length (processing s') + length cs"
proof (induction cs arbitrary: s)
  case Nil
  then show ?case by simp
next
  case (Cons c cs)
  obtain now f where c: "c = (now, f)" by (cases c)
  from Cons.prems c obtain s1
    where r: "retry now f s = Some s1" and rest: "sweeps cs s1 = Some s'"
    by (auto split: option.splits)
  from retry_processing_cases[OF r]
  have "length (processing s) \<le> length (processing s1) + 1"
    by auto
  with Cons.IH[OF rest] show ?case by simp
qed

lemma stamp_attempts: "attempts (stamp now j) = attempts j + 1"
  by (simp add: attempts_def stamp_def split: option.splits)












text \<open>
  Claim C10. One sweep reads index 0 of \<^verbatim>\<open>processing\<close> and nothing else: either both
  lists are as before, or the head alone has left \<^verbatim>\<open>processing\<close> (requeued at the tail
  of \<^verbatim>\<open>todo\<close>, or discarded) and every record behind it is still there. So each sweep
  shortens \<^verbatim>\<open>processing\<close> by at most one, and sweeps that empty a list of \<open>n\<close> records
  are at least \<open>n\<close>.
\<close>

theorem retry_only_head:
  "(retry now f s = Some s' \<longrightarrow>
      (processing s' = processing s \<and> todo s' = todo s) \<or>
      (\<exists>p rest. processing s = p # rest \<and> processing s' = rest \<and>
         (todo s' = todo s \<or> todo s' = todo s @ [p])))
   \<and> (retry now f s = Some s' \<longrightarrow> length (processing s) \<le> length (processing s') + 1)
   \<and> (sweeps cs s = Some s'' \<longrightarrow> length (processing s) \<le> length (processing s'') + length cs)
   \<and> (sweeps cs s = Some s'' \<and> processing s'' = [] \<longrightarrow> length (processing s) \<le> length cs)"
proof -
  have "retry now f s = Some s' \<longrightarrow> length (processing s) \<le> length (processing s') + 1"
    using retry_processing_cases [of now f s s'] by auto
  moreover have "sweeps cs s = Some s'' \<and> processing s'' = [] \<longrightarrow> length (processing s) \<le> length cs"
    using sweeps_length [of cs s s''] by auto
  ultimately show ?thesis
    using retry_lists_cases [of now f s s'] sweeps_length [of cs s s''] by blast
qed

theorem retry_only_head_witness:
  "retry 660000 No_fault
     (empty_store\<lparr>processing := [\<lparr>name = ''a'', job_id = ''1'', timestamp = Some 0, tries = Some 1\<rparr>,
                                  \<lparr>name = ''b'', job_id = ''2'', timestamp = Some 0, tries = Some 3\<rparr>]\<rparr>)
     = Some (\<lparr>todo = [\<lparr>name = ''a'', job_id = ''1'', timestamp = Some 0, tries = Some 1\<rparr>],
              processing = [\<lparr>name = ''b'', job_id = ''2'', timestamp = Some 0, tries = Some 3\<rparr>],
              todo_lock = False, processing_lock = False\<rparr>)
   \<and> sweeps [(660000, No_fault), (660000, No_fault)]
     (empty_store\<lparr>processing := [\<lparr>name = ''a'', job_id = ''1'', timestamp = Some 0, tries = Some 1\<rparr>,
                                  \<lparr>name = ''b'', job_id = ''2'', timestamp = Some 0, tries = Some 3\<rparr>]\<rparr>)
     = Some (\<lparr>todo = [\<lparr>name = ''a'', job_id = ''1'', timestamp = Some 0, tries = Some 1\<rparr>],
              processing = [], todo_lock = False, processing_lock = False\<rparr>)
   \<and> length (processing (empty_store\<lparr>processing := [\<lparr>name = ''a'', job_id = ''1'', timestamp = Some 0, tries = Some 1\<rparr>,
                                  \<lparr>name = ''b'', job_id = ''2'', timestamp = Some 0, tries = Some 3\<rparr>]\<rparr>))
       \<le> length [(660000::int, No_fault), (660000, No_fault)]"
proof -
  let ?a = "\<lparr>name = ''a'', job_id = ''1'', timestamp = Some 0, tries = Some 1\<rparr>"
  let ?b = "\<lparr>name = ''b'', job_id = ''2'', timestamp = Some 0, tries = Some 3\<rparr>"
  let ?s = "empty_store\<lparr>processing := [?a, ?b]\<rparr>"
  let ?s1 = "\<lparr>todo = [?a], processing = [?b], todo_lock = False, processing_lock = False\<rparr>"
  let ?s2 = "\<lparr>todo = [?a], processing = [], todo_lock = False, processing_lock = False\<rparr>"
  let ?cs = "[(660000::int, No_fault), (660000, No_fault)]"
  have r1: "retry 660000 No_fault ?s = Some ?s1"
    by (simp add: retry_def redis_defs empty_store_def is_stale_def tries_left_def
        release_processing_def)
  have r2: "retry 660000 No_fault ?s1 = Some ?s2"
    by (simp add: retry_def redis_defs is_stale_def tries_left_def release_processing_def)
  have sw: "sweeps ?cs ?s = Some ?s2"
    using r1 r2 by simp
  have e: "processing ?s2 = []" by simp
  from retry_only_head [where now = 660000 and f = No_fault and s = ?s and s' = ?s1
      and cs = ?cs and s'' = ?s2] sw e
  have "length (processing ?s) \<le> length ?cs"
    by blast
  with r1 sw show ?thesis by blast
qed

section \<open>Every reachable state\<close>

lemma post_handler_lists:
  "todo (post_handler k n i s) = todo s @ replicate k (new_job n i)
   \<and> processing (post_handler k n i s) = processing s
   \<and> todo_lock (post_handler k n i s) = todo_lock s
   \<and> processing_lock (post_handler k n i s) = processing_lock s"
  by (induction k) (simp_all add: post_handler_def rpush_def replicate_append_same)

lemma length_filter_update:
  "i < length xs \<Longrightarrow>
     int (length (filter P (xs[i := y]))) =
       int (length (filter P xs)) - (if P (xs ! i) then 1 else 0) + (if P y then 1 else 0)"
proof (induction xs arbitrary: i)
  case Nil
  then show ?case by simp
next
  case (Cons x xs)
  show ?case
  proof (cases i)
    case 0
    then show ?thesis by simp
  next
    case (Suc n)
    with Cons.prems have "n < length xs" by simp
    from Cons.IH[OF this] Suc show ?thesis by (auto split: if_splits)
  qed
qed

lemma task_step_dispatch:
  "task_step now r t s = (t', s') \<Longrightarrow> in_dispatch t' = (in_dispatch t \<and> t' \<noteq> Finished)"
  by (cases t) (auto split: if_splits option.splits)

lemma counter_ok_step: "counter_ok w \<Longrightarrow> counter_ok (step e w)"
proof (cases e)
  case (Post n i raises)
  assume "counter_ok w"
  with Post show ?thesis by (simp add: counter_ok_def)
next
  case Tick
  assume "counter_ok w"
  with Tick show ?thesis by (simp add: counter_ok_def MAX_JOBS_def)
next
  case Sweep
  assume "counter_ok w"
  with Sweep show ?thesis by (simp add: counter_ok_def)
next
  case (Run i now raises)
  assume ok: "counter_ok w"
  show ?thesis
  proof (cases "i < length (tasks w)")
    case False
    with ok Run show ?thesis by simp
  next
    case True
    obtain t' s' where ts: "task_step now raises (tasks w ! i) (redis w) = (t', s')"
      by (cases "task_step now raises (tasks w ! i) (redis w)")
    from task_step_dispatch[OF ts]
    have d: "in_dispatch t' = (in_dispatch (tasks w ! i) \<and> t' \<noteq> Finished)" .
    have fin: "\<not> in_dispatch Finished" by simp
    from ok True Run ts d fin show ?thesis
      by (auto simp: counter_ok_def length_filter_update)
  qed
next
  case (Expire q)
  assume "counter_ok w"
  with Expire show ?thesis by (simp add: counter_ok_def)
qed

lemma counter_ok_run: "counter_ok w \<Longrightarrow> counter_ok (run es w)"
  by (induction es arbitrary: w) (auto simp: counter_ok_step)

lemma counter_ok_init: "counter_ok init"
  by (simp add: counter_ok_def init_def MAX_JOBS_def)

lemma in_job_body_dispatch: "in_job_body t \<Longrightarrow> in_dispatch t"
  by (cases t) auto

lemma filter_job_le: "length (filter in_job_body ts) \<le> length (filter in_dispatch ts)"
  by (induction ts) (auto dest: in_job_body_dispatch)

lemma tries_left_attempts: "tries_left p \<Longrightarrow> attempts p < 3"
  by (auto simp: tries_left_def attempts_def split: option.splits)

lemma lindex_head_Some: "lindex q 0 s = Some x \<longleftrightarrow> (\<exists>rest. get_list q s = x # rest)"
  by (cases "get_list q s") (auto simp: lindex_def)

lemma claim_transaction:
  "lmove Todo Processing (lset Todo 0 c s) =
     (case todo s of [] \<Rightarrow> s | x # xs \<Rightarrow> s\<lparr>todo := xs, processing := processing s @ [c]\<rparr>)"
  by (cases "todo s") (simp_all add: lmove_def lset_def)

lemma reclaim_transaction:
  "lmove Processing Todo (lset Processing 0 p s) =
     (case processing s of [] \<Rightarrow> s | x # xs \<Rightarrow> s\<lparr>processing := xs, todo := todo s @ [p]\<rparr>)"
  by (cases "processing s") (simp_all add: lmove_def lset_def)

lemma task_step_tries:
  assumes "lists_ok s" and "task_tries_ok t" and "task_step now r t s = (t', s')"
  shows "lists_ok s' \<and> task_tries_ok t'"
proof (cases t)
  case D_lindex
  with assms show ?thesis
    by (auto simp: lists_ok_def lindex_head_Some stamp_attempts split: if_splits option.splits)
next
  case (D_multi c)
  with assms show ?thesis
    by (auto simp: lists_ok_def claim_transaction split: if_splits list.splits)
next
  case R_lindex
  with assms show ?thesis
    by (auto simp: lists_ok_def lindex_head_Some dest: tries_left_attempts split: if_splits option.splits)
next
  case (R_multi p)
  with assms show ?thesis
    by (auto simp: lists_ok_def reclaim_transaction split: if_splits list.splits)
next
  case (D_lrem c)
  with assms show ?thesis
    by (auto simp: lists_ok_def lrem_def dest: notin_set_remove1 split: if_splits)
next
  case R_lpop
  with assms show ?thesis
    by (auto simp: lists_ok_def lpop_def split: if_splits list.splits)
qed (use assms in \<open>auto simp: lists_ok_def acquireLock_def releaseLock_def split: if_splits\<close>)

lemma tries_bounded_step: "tries_bounded w \<Longrightarrow> tries_bounded (step e w)"
proof (cases e)
  case (Post n i raises)
  assume "tries_bounded w"
  with Post show ?thesis
    by (auto simp: tries_bounded_def lists_ok_def post_handler_lists new_job_def
        attempts_def)
next
  case Tick
  assume "tries_bounded w"
  with Tick show ?thesis by (auto simp: tries_bounded_def)
next
  case Sweep
  assume "tries_bounded w"
  with Sweep show ?thesis by (auto simp: tries_bounded_def)
next
  case (Run i now r)
  assume ok: "tries_bounded w"
  show ?thesis
  proof (cases "i < length (tasks w)")
    case False
    with ok Run show ?thesis by simp
  next
    case True
    obtain t' s' where st: "task_step now r (tasks w ! i) (redis w) = (t', s')"
      by (cases "task_step now r (tasks w ! i) (redis w)")
    from ok True have "lists_ok (redis w)" and "task_tries_ok (tasks w ! i)"
      by (auto simp: tries_bounded_def)
    from task_step_tries[OF this st] have n: "lists_ok s'" "task_tries_ok t'"
      by simp_all
    have "set ((tasks w)[i := t']) \<subseteq> insert t' (set (tasks w))"
      by (rule set_update_subset_insert)
    with ok n True Run st show ?thesis
      by (auto simp: tries_bounded_def)
  qed
next
  case (Expire q)
  assume "tries_bounded w"
  then show ?thesis using Expire
    by (cases q) (auto simp: tries_bounded_def lists_ok_def)
qed

lemma tries_bounded_run: "tries_bounded w \<Longrightarrow> tries_bounded (run es w)"
  by (induction es arbitrary: w) (auto simp: tries_bounded_step)

lemma tries_bounded_init: "tries_bounded init"
  by (simp add: tries_bounded_def lists_ok_def init_def empty_store_def)

text \<open>How one task step moves the locks and the holders.\<close>

lemma task_step_todo_lock:
  assumes "task_step now r t s = (t', s')"
  shows "(holds_todo t' \<and> \<not> holds_todo t \<longrightarrow> \<not> todo_lock s \<and> todo_lock s')
       \<and> (holds_todo t' \<and> holds_todo t \<longrightarrow> todo_lock s' = todo_lock s)
       \<and> (\<not> holds_todo t \<longrightarrow> todo_lock s \<longrightarrow> todo_lock s')"
  using assms
  by (cases t) (auto simp: acquireLock_def releaseLock_def claim_transaction reclaim_transaction
      lrem_def lpop_def split: if_splits option.splits list.splits)

lemma task_step_processing_lock:
  assumes "task_step now r t s = (t', s')"
  shows "(holds_processing t' \<and> \<not> holds_processing t \<longrightarrow> \<not> processing_lock s \<and> processing_lock s')
       \<and> (holds_processing t' \<and> holds_processing t \<longrightarrow> processing_lock s' = processing_lock s)
       \<and> (\<not> holds_processing t \<longrightarrow> processing_lock s \<longrightarrow> processing_lock s')"
  using assms
  by (cases t) (auto simp: acquireLock_def releaseLock_def claim_transaction reclaim_transaction
      lrem_def lpop_def split: if_splits option.splits list.splits)

lemma lock_inv_update:
  assumes inv: "lock_inv P L ts" and i: "i < length ts"
    and acq: "P t' \<and> \<not> P (ts ! i) \<longrightarrow> \<not> L \<and> L'"
    and keep: "P t' \<and> P (ts ! i) \<longrightarrow> L' = L"
    and out: "\<not> P (ts ! i) \<longrightarrow> L \<longrightarrow> L'"
  shows "lock_inv P L' (ts[i := t'])"
proof -
  have excl: "\<And>a b. a < length ts \<Longrightarrow> b < length ts \<Longrightarrow> P (ts ! a) \<Longrightarrow> P (ts ! b) \<Longrightarrow> a = b"
    using inv by (auto simp: lock_inv_def)
  have held: "\<And>a. a < length ts \<Longrightarrow> P (ts ! a) \<Longrightarrow> L"
    using inv by (auto simp: lock_inv_def)
  have other: "\<And>a. a < length ts \<Longrightarrow> a \<noteq> i \<Longrightarrow> P (ts ! a) \<Longrightarrow> \<not> P t' \<or> P (ts ! i)"
    using acq held by blast
  have o2: "\<And>a. a < length ts \<Longrightarrow> a \<noteq> i \<Longrightarrow> P (ts ! a) \<Longrightarrow> \<not> P (ts ! i)"
    using excl i by blast
  show ?thesis
    unfolding lock_inv_def
  proof (intro conjI allI impI)
    fix a b
    assume a: "a < length (ts[i := t'])" and b: "b < length (ts[i := t'])"
      and pp: "P (ts[i := t'] ! a) \<and> P (ts[i := t'] ! b)"
    show "a = b"
    proof (cases "a = i")
      case True
      show ?thesis
      proof (cases "b = i")
        case True
        with \<open>a = i\<close> show ?thesis by simp
      next
        case False
        with b pp have "P (ts ! b)" by simp
        with other[of b] o2[of b] False b pp True i show ?thesis by auto
      qed
    next
      case False
      with a pp have pa: "P (ts ! a)" by simp
      show ?thesis
      proof (cases "b = i")
        case True
        with other[of a] o2[of a] False a pa pp i show ?thesis by auto
      next
        case False
        with b pp have "P (ts ! b)" by simp
        with pa excl a b show ?thesis by simp
      qed
    qed
  next
    fix a
    assume a: "a < length (ts[i := t'])" and p: "P (ts[i := t'] ! a)"
    show L'
    proof (cases "a = i")
      case True
      with p i have "P t'" by simp
      with acq keep held[OF i] show ?thesis by blast
    next
      case False
      with a p have pa: "P (ts ! a)" by simp
      with o2[of a] a False have ni: "\<not> P (ts ! i)" by simp
      from other[of a] a False pa ni have "\<not> P t'" by auto
      with ni out held[of a] a pa show ?thesis by auto
    qed
  qed
qed

lemma lock_inv_append: "lock_inv P L ts \<Longrightarrow> \<not> P t \<Longrightarrow> lock_inv P L (ts @ [t])"
  by (auto simp: lock_inv_def nth_append split: if_splits) 

lemma task_step_lists:
  assumes "task_step now r t s = (t', s')"
  shows "(todo s' = todo s \<and> processing s' = processing s)
     \<or> (\<exists>c j rest. t = D_multi c \<and> todo s = j # rest \<and> todo s' = rest
            \<and> processing s' = processing s @ [c])
     \<or> (\<exists>p j rest. t = R_multi p \<and> processing s = j # rest \<and> processing s' = rest
            \<and> todo s' = todo s @ [p])
     \<or> (\<exists>c. t = D_lrem c \<and> todo s' = todo s \<and> processing s' = remove1 c (processing s))
     \<or> (t = R_lpop \<and> todo s' = todo s \<and> processing s' = tl (processing s))"
  using assms
  by (cases t) (auto simp: acquireLock_def releaseLock_def claim_transaction reclaim_transaction
      lrem_def lpop_def split: if_splits option.splits list.splits)

lemma task_step_head_self:
  assumes "task_step now r t s = (t', s')"
  shows "head_expected s' t'"
  using assms
  by (cases t) (auto simp: acquireLock_def lindex_head_Some stamp_def
      split: if_splits option.splits list.splits)

lemma task_step_head_other:
  assumes st: "task_step now r t s = (t', s')"
    and u: "head_expected s u"
    and nt: "\<not> (holds_todo t \<and> holds_todo u)"
    and np: "\<not> (holds_processing t \<and> holds_processing u)"
  shows "head_expected s' u"
proof (cases u)
  case (D_multi c)
  with u nt task_step_lists[OF st] show ?thesis
    by (auto split: list.splits)
next
  case (R_multi p)
  with u np task_step_lists[OF st] show ?thesis
    by (auto split: list.splits)
qed simp_all

lemma distinct_map_remove1: "distinct (map f xs) \<Longrightarrow> distinct (map f (remove1 x xs))"
proof (induction xs)
  case Nil
  then show ?case by simp
next
  case (Cons a xs)
  have "set (remove1 x xs) \<subseteq> set xs" by (rule set_remove1_subset)
  with Cons show ?case by auto
qed

lemma distinct_map_tl: "distinct (map f xs) \<Longrightarrow> distinct (map f (tl xs))"
  by (cases xs) auto

lemma task_step_distinct:
  assumes st: "task_step now r t s = (t', s')"
    and h: "head_expected s t"
    and d: "distinct (queued_ids s)"
  shows "distinct (queued_ids s')"
proof -
  from task_step_lists[OF st] consider
      (same) "todo s' = todo s" "processing s' = processing s"
    | (claim) c j rest where "t = D_multi c" "todo s = j # rest" "todo s' = rest"
        "processing s' = processing s @ [c]"
    | (reclaim) p j rest where "t = R_multi p" "processing s = j # rest" "processing s' = rest"
        "todo s' = todo s @ [p]"
    | (lrem) c where "todo s' = todo s" "processing s' = remove1 c (processing s)"
    | (lpop) "todo s' = todo s" "processing s' = tl (processing s)"
    by blast
  then show ?thesis
  proof cases
    case same
    with d show ?thesis by (simp add: queued_ids_def)
  next
    case claim
    from h claim have "job_id c = job_id j"
      by (auto simp: stamp_def split: option.splits)
    with d claim show ?thesis by (auto simp: queued_ids_def)
  next
    case reclaim
    from h reclaim have "p = j" by simp
    with d reclaim show ?thesis by (auto simp: queued_ids_def)
  next
    case lrem
    from d have "distinct (map job_id (processing s))"
      and "distinct (map job_id (todo s))"
      and "set (map job_id (todo s)) \<inter> set (map job_id (processing s)) = {}"
      by (simp_all add: queued_ids_def)
    moreover have "set (remove1 c (processing s)) \<subseteq> set (processing s)"
      by (rule set_remove1_subset)
    ultimately show ?thesis
      using lrem by (auto simp: queued_ids_def distinct_map_remove1)
  next
    case lpop
    from d have "distinct (map job_id (processing s))"
      and "distinct (map job_id (todo s))"
      and "set (map job_id (todo s)) \<inter> set (map job_id (processing s)) = {}"
      by (simp_all add: queued_ids_def)
    then show ?thesis
      using lpop by (cases "processing s") (auto simp: queued_ids_def)
  qed
qed

lemma head_expected_post:
  "head_expected s u \<Longrightarrow> head_expected (post_handler k n i s) u"
  by (cases u) (auto simp: post_handler_lists split: list.splits)

lemma protocol_ok_post:
  assumes ok: "protocol_ok w" and f: "k = 0 \<or> (k = 1 \<and> i \<notin> set (queued_ids (redis w)))"
  shows "protocol_ok (step (Post n i k) w)"
proof -
  have "distinct (queued_ids (post_handler k n i (redis w)))"
    using ok f by (auto simp: protocol_ok_def queued_ids_def post_handler_lists new_job_def)
  with ok show ?thesis
    by (simp add: protocol_ok_def head_expected_post post_handler_lists)
qed

lemma protocol_ok_expire:
  assumes ok: "protocol_ok w" and f: "\<not> list_ex (holds q) (tasks w)"
  shows "protocol_ok (step (Expire q) w)"
proof -
  from f have none: "\<And>i. i < length (tasks w) \<Longrightarrow> \<not> holds q (tasks w ! i)"
    by (auto simp: list_ex_iff)
  have he: "\<And>u. head_expected (put_lock q False (redis w)) u = head_expected (redis w) u"
  proof -
    fix u show "head_expected (put_lock q False (redis w)) u = head_expected (redis w) u"
      by (cases q; cases u) simp_all
  qed
  have qi: "queued_ids (put_lock q False (redis w)) = queued_ids (redis w)"
    by (cases q) (simp_all add: queued_ids_def)
  show ?thesis
  proof (cases q)
    case Todo
    with none have "\<And>i. i < length (tasks w) \<Longrightarrow> \<not> holds_todo (tasks w ! i)" by simp
    then have "lock_inv holds_todo False (tasks w)" by (simp add: lock_inv_def)
    with ok Todo he qi show ?thesis by (simp add: protocol_ok_def)
  next
    case Processing
    with none have "\<And>i. i < length (tasks w) \<Longrightarrow> \<not> holds_processing (tasks w ! i)" by simp
    then have "lock_inv holds_processing False (tasks w)" by (simp add: lock_inv_def)
    with ok Processing he qi show ?thesis by (simp add: protocol_ok_def)
  qed
qed

lemma protocol_ok_tick: "protocol_ok w \<Longrightarrow> protocol_ok (step Tick w)"
  by (auto simp: protocol_ok_def lock_inv_append nth_append)

lemma protocol_ok_sweep: "protocol_ok w \<Longrightarrow> protocol_ok (step Sweep w)"
  by (auto simp: protocol_ok_def lock_inv_append nth_append)

lemma protocol_ok_run:
  assumes ok: "protocol_ok w"
  shows "protocol_ok (step (Run i now r) w)"
proof (cases "i < length (tasks w)")
  case False
  with ok show ?thesis by simp
next
  case True
  obtain t' s' where st: "task_step now r (tasks w ! i) (redis w) = (t', s')"
    by (cases "task_step now r (tasks w ! i) (redis w)")
  let ?ts = "tasks w"
  from ok have lt: "lock_inv holds_todo (todo_lock (redis w)) ?ts"
    and lp: "lock_inv holds_processing (processing_lock (redis w)) ?ts"
    and he: "\<And>k. k < length ?ts \<Longrightarrow> head_expected (redis w) (?ts ! k)"
    and d: "distinct (queued_ids (redis w))"
    by (auto simp: protocol_ok_def)
  have lt': "lock_inv holds_todo (todo_lock s') (?ts[i := t'])"
    using lock_inv_update[OF lt True] task_step_todo_lock[OF st] by blast
  have lp': "lock_inv holds_processing (processing_lock s') (?ts[i := t'])"
    using lock_inv_update[OF lp True] task_step_processing_lock[OF st] by blast
  have he': "head_expected s' (?ts[i := t'] ! k)" if k: "k < length ?ts" for k
  proof (cases "k = i")
    case True
    with k task_step_head_self[OF st] show ?thesis by simp
  next
    case False
    from lt k True False have "\<not> (holds_todo (?ts ! i) \<and> holds_todo (?ts ! k))"
      by (auto simp: lock_inv_def)
    moreover from lp k True False have "\<not> (holds_processing (?ts ! i) \<and> holds_processing (?ts ! k))"
      by (auto simp: lock_inv_def)
    ultimately have "head_expected s' (?ts ! k)"
      using task_step_head_other[OF st he[OF k]] by blast
    with False show ?thesis by simp
  qed
  have d': "distinct (queued_ids s')"
    using task_step_distinct[OF st he[OF True] d] .
  from lt' lp' he' d' True st show ?thesis
    by (simp add: protocol_ok_def)
qed

lemma protocol_ok_step: "protocol_ok w \<Longrightarrow> orderly_event e w \<Longrightarrow> protocol_ok (step e w)"
proof (cases e)
  case (Post n i k)
  assume "protocol_ok w" "orderly_event e w"
  with Post show ?thesis using protocol_ok_post by simp
next
  case Tick
  assume "protocol_ok w"
  with Tick show ?thesis using protocol_ok_tick by simp
next
  case Sweep
  assume "protocol_ok w"
  with Sweep show ?thesis using protocol_ok_sweep by simp
next
  case (Run i now r)
  assume "protocol_ok w"
  with Run show ?thesis using protocol_ok_run by simp
next
  case (Expire q)
  assume "protocol_ok w" "orderly_event e w"
  with Expire show ?thesis using protocol_ok_expire by simp
qed

lemma protocol_ok_runs: "protocol_ok w \<Longrightarrow> orderly es w \<Longrightarrow> protocol_ok (run es w)"
  by (induction es arbitrary: w) (auto simp: protocol_ok_step)

lemma protocol_ok_init: "protocol_ok init"
  by (simp add: protocol_ok_def init_def lock_inv_def queued_ids_def empty_store_def)

lemma task_step_records:
  assumes st: "task_step now r t s = (t', s')"
    and h: "head_expected s t"
    and nc: "(\<exists>c. t = D_multi c) \<longrightarrow> r = Rejects"
  shows "set (todo s') \<union> set (processing s') \<subseteq> set (todo s) \<union> set (processing s)"
proof -
  from task_step_lists[OF st] consider
      (same) "todo s' = todo s" "processing s' = processing s"
    | (claim) c j rest where "t = D_multi c" "todo s = j # rest" "todo s' = rest"
        "processing s' = processing s @ [c]"
    | (reclaim) p j rest where "t = R_multi p" "processing s = j # rest" "processing s' = rest"
        "todo s' = todo s @ [p]"
    | (lrem) c where "todo s' = todo s" "processing s' = remove1 c (processing s)"
    | (lpop) "todo s' = todo s" "processing s' = tl (processing s)"
    by blast
  then show ?thesis
  proof cases
    case same
    then show ?thesis by simp
  next
    case claim
    with nc have "r = Rejects" by blast
    with claim st show ?thesis by simp
  next
    case reclaim
    with h show ?thesis by auto
  next
    case lrem
    have "set (remove1 c (processing s)) \<subseteq> set (processing s)"
      by (rule set_remove1_subset)
    with lrem show ?thesis by auto
  next
    case lpop
    then show ?thesis by (cases "processing s") auto
  qed
qed

lemma counted_step:
  assumes p: "protocol_ok w" and tb: "tries_bounded w" and k: "counted x n (redis w)"
    and f: "orderly_event e w"
  shows "counted x (if submits_job x e then 0 else if claims_job x e w then n + 1 else n)
           (redis (step e w))"
proof (cases e)
  case (Post nm i m)
  show ?thesis
  proof (cases "m = 0")
    case True
    with Post k show ?thesis by (simp add: post_handler_def)
  next
    case False
    with Post f have m: "m = 1" and fr: "i \<notin> set (queued_ids (redis w))" by simp_all
    have at: "attempts (new_job nm i) = 0" by (simp add: new_job_def attempts_def)
    have id: "job_id (new_job nm i) = i" by (simp add: new_job_def)
    from fr have none: "\<forall>j \<in> set (todo (redis w)) \<union> set (processing (redis w)). job_id j \<noteq> i"
      by (auto simp: queued_ids_def intro: rev_image_eqI)
    show ?thesis
    proof (cases "i = x")
      case True
      with Post m none at id show ?thesis
        by (auto simp: counted_def post_handler_lists)
    next
      case False
      with Post m k id show ?thesis
        by (auto simp: counted_def post_handler_lists)
    qed
  qed
next
  case Tick
  with k show ?thesis by (auto simp: counted_def)
next
  case Sweep
  with k show ?thesis by (auto simp: counted_def)
next
  case (Run i now r)
  show ?thesis
  proof (cases "i < length (tasks w)")
    case False
    with k Run show ?thesis by simp
  next
    case True
    obtain t' s' where st: "task_step now r (tasks w ! i) (redis w) = (t', s')"
      by (cases "task_step now r (tasks w ! i) (redis w)")
    from p True have he: "head_expected (redis w) (tasks w ! i)"
      by (simp add: protocol_ok_def)
    from Run True st have rs: "redis (step e w) = s'" by simp
    show ?thesis
    proof (cases "\<exists>c. tasks w ! i = D_multi c \<and> r \<noteq> Rejects")
      case False
      then have nc: "(\<exists>c. tasks w ! i = D_multi c) \<longrightarrow> r = Rejects" by blast
      from False Run have "\<not> claims_job x e w"
        by (auto split: task.splits)
      moreover from Run have "\<not> submits_job x e" by simp
      moreover from task_step_records[OF st he nc] k have "counted x n s'"
        by (auto simp: counted_def)
      ultimately show ?thesis using rs by simp
    next
      case True
      then obtain c where c: "tasks w ! i = D_multi c" and nr: "r \<noteq> Rejects" by blast
      from he c obtain j rest tm where hd: "todo (redis w) = j # rest"
        and cj: "c = stamp tm j"
        by (auto split: list.splits option.splits)
      from st c nr hd have s': "s' = (redis w)\<lparr>todo := rest, processing := processing (redis w) @ [c]\<rparr>"
        by (simp add: claim_transaction)
      from cj have idc: "job_id c = job_id j" by (simp add: stamp_def)
      from p have dist: "distinct (queued_ids (redis w))" by (simp add: protocol_ok_def)
      from tb hd have jb: "attempts j < 3" by (auto simp: tries_bounded_def lists_ok_def)
      show ?thesis
      proof (cases "job_id c = x")
        case False
        with Run c have "\<not> claims_job x e w" by simp
        moreover from Run have "\<not> submits_job x e" by simp
        moreover from k s' hd False have "counted x n s'"
          by (auto simp: counted_def)
        ultimately show ?thesis using rs by simp
      next
        case True
        with Run c nr hd \<open>i < length (tasks w)\<close> have cl: "claims_job x e w" by simp
        from Run have ns: "\<not> submits_job x e" by simp
        from k hd True idc have aj: "attempts j = int n" by (simp add: counted_def)
        with jb have n3: "n + 1 \<le> 3" by simp
        from dist hd True idc have others: "\<forall>j' \<in> set rest \<union> set (processing (redis w)). job_id j' \<noteq> x"
          by (auto simp: queued_ids_def intro: rev_image_eqI)
        from cj aj have "attempts c = int (n + 1)" by (simp add: stamp_attempts)
        with others n3 s' have "counted x (n + 1) s'"
          by (auto simp: counted_def)
        with cl ns rs show ?thesis by simp
      qed
    qed
  qed
next
  case (Expire q)
  with k show ?thesis by (cases q) (simp_all add: counted_def)
qed

lemma claim_count_bounded:
  "protocol_ok w \<Longrightarrow> tries_bounded w \<Longrightarrow> counted x n (redis w) \<Longrightarrow> orderly es w
     \<Longrightarrow> claim_count x es w n \<le> 3"
proof (induction es arbitrary: w n)
  case Nil
  then show ?case by (simp add: counted_def)
next
  case (Cons e es)
  from Cons.prems have f: "orderly_event e w" and fs: "orderly es (step e w)" by simp_all
  show ?case
    using Cons.IH[OF protocol_ok_step[OF Cons.prems(1) f] tries_bounded_step[OF Cons.prems(2)]
        counted_step[OF Cons.prems(1) Cons.prems(2) Cons.prems(3) f] fs]
    by simp
qed

text \<open>A sweep, and a dispatch in which nothing fails, run with no other call in
  between: the interleaved system computes what \<open>retry\<close> and \<open>execute_body\<close> say.\<close>

lemma update_last: "(ts @ [t])[length ts := u] = ts @ [u]"
  by (induction ts) auto

lemma retry_as_run:
  assumes l: "\<not> processing_lock (redis w)" and n: "n = length (tasks w)"
  shows "retry now No_fault (redis w)
     = Some (redis (run [Sweep, Run n now Resolves, Run n now Resolves, Run n now Resolves,
                         Run n now Resolves] w))"
proof (cases "processing (redis w)")
  case Nil
  with l n show ?thesis
    by (simp add: retry_def release_processing_def acquireLock_def releaseLock_def
        update_last lindex_def)
next
  case (Cons p rest)
  show ?thesis
  proof (cases "is_stale now p")
    case False
    with l n Cons show ?thesis
      by (simp add: retry_def release_processing_def acquireLock_def releaseLock_def
          update_last lindex_def)
  next
    case True
    show ?thesis
    proof (cases "tries_left p")
      case False
      with l n Cons \<open>is_stale now p\<close> show ?thesis
        by (simp add: retry_def release_processing_def acquireLock_def releaseLock_def
            update_last lindex_def lpop_def)
    next
      case True
      with l n Cons \<open>is_stale now p\<close> show ?thesis
        by (simp add: retry_def release_processing_def acquireLock_def releaseLock_def
            update_last lindex_def reclaim_transaction)
    qed
  qed
qed

lemma execute_body_as_run:
  assumes lt: "\<not> todo_lock (redis w)" and lp: "\<not> processing_lock (redis w)"
    and n: "n = length (tasks w)" and r: "running w < MAX_JOBS"
  shows "execute_body now No_failure (redis w)
     = Some (redis (run [Tick, Run n now Resolves, Run n now Resolves, Run n now Resolves,
                         Run n now Resolves, Run n now Resolves, Run n now Resolves,
                         Run n now Resolves, Run n now Resolves] w))"
proof (cases "todo (redis w)")
  case Nil
  with lt lp n r show ?thesis
    by (simp add: execute_body_def acquireLock_def releaseLock_def update_last lindex_def)
next
  case (Cons j rest)
  with lt lp n r show ?thesis
    by (simp add: execute_body_def acquireLock_def releaseLock_def update_last lindex_def
        claim_transaction lrem_def Let_def)
qed

text \<open>
  Claim C4. In every reachable state the counter \<^verbatim>\<open>running\<close> is the number of
  dispatch calls in progress, lies between 0 and \<^verbatim>\<open>MAX_JOBS\<close> = 3, and so bounds the
  job bodies being executed. A tick at the limit does nothing, a tick below it adds
  one before any store call; a step of a dispatch call takes one off exactly when
  the call ends (by whichever way), a step of any other task leaves the counter, and a
  whole call of \<^verbatim>\<open>execute\<close> returns the counter to where it was.
\<close>

theorem running_counts_dispatches:
  "running (run es init) = int (length (filter in_dispatch (tasks (run es init))))
   \<and> 0 \<le> running (run es init) \<and> running (run es init) \<le> MAX_JOBS \<and> MAX_JOBS = 3
   \<and> length (filter in_job_body (tasks (run es init))) \<le> 3
   \<and> (MAX_JOBS \<le> running w \<longrightarrow> step Tick w = w)
   \<and> (running w < MAX_JOBS \<longrightarrow>
        running (step Tick w) = running w + 1 \<and> tasks (step Tick w) = tasks w @ [D_acquire_todo]
        \<and> redis (step Tick w) = redis w)
   \<and> (i < length (tasks w) \<and> in_dispatch (tasks w ! i) \<longrightarrow>
        running (step (Run i now rp) w)
          = (if tasks (step (Run i now rp) w) ! i = Finished then running w - 1
             else running w))
   \<and> (i < length (tasks w) \<and> \<not> in_dispatch (tasks w ! i) \<longrightarrow>
        running (step (Run i now rp) w) = running w)
   \<and> (execute now f (r, s) = Some (r', s') \<longrightarrow> r' = r)
   \<and> (MAX_JOBS \<le> r \<longrightarrow> execute now f (r, s) = Some (r, s))"
proof -
  have a: "running (run es init) = int (length (filter in_dispatch (tasks (run es init))))
     \<and> 0 \<le> running (run es init) \<and> running (run es init) \<le> MAX_JOBS \<and> MAX_JOBS = 3
     \<and> length (filter in_job_body (tasks (run es init))) \<le> 3"
    using counter_ok_run[OF counter_ok_init, of es] filter_job_le[of "tasks (run es init)"]
    by (auto simp: counter_ok_def MAX_JOBS_def)
  have b: "(MAX_JOBS \<le> running w \<longrightarrow> step Tick w = w)
     \<and> (running w < MAX_JOBS \<longrightarrow>
        running (step Tick w) = running w + 1 \<and> tasks (step Tick w) = tasks w @ [D_acquire_todo]
        \<and> redis (step Tick w) = redis w)"
    by simp
  have c: "i < length (tasks w) \<and> in_dispatch (tasks w ! i) \<longrightarrow>
        running (step (Run i now rp) w)
          = (if tasks (step (Run i now rp) w) ! i = Finished then running w - 1
             else running w)"
    by (auto split: prod.splits)
  have d: "i < length (tasks w) \<and> \<not> in_dispatch (tasks w ! i) \<longrightarrow>
        running (step (Run i now rp) w) = running w"
    by (auto split: prod.splits)
  have e: "(execute now f (r, s) = Some (r', s') \<longrightarrow> r' = r)
     \<and> (MAX_JOBS \<le> r \<longrightarrow> execute now f (r, s) = Some (r, s))"
    by (auto simp: execute_def split: if_splits option.splits)
  from a b c d e show ?thesis by (elim conjE, intro conjI)
qed

theorem running_counts_dispatches_witness:
  "running (run [Tick, Tick, Tick, Tick, Run 0 0 Rejects] init) = 2
   \<and> step Tick (run [Tick, Tick, Tick] init) = run [Tick, Tick, Tick] init
   \<and> running (step Tick init) = 1
   \<and> running (step (Run 0 0 Rejects) (step Tick init)) = 0
   \<and> running (step (Run 0 0 Rejects) (step Sweep init)) = 0
   \<and> execute 0 No_failure (0, empty_store) = Some (0, empty_store)
   \<and> execute 0 No_failure (3, empty_store) = Some (3, empty_store)"
proof -
  let ?w3 = "run [Tick, Tick, Tick] init"
  have r3: "running ?w3 = 3" by (simp add: init_def MAX_JOBS_def acquireLock_def empty_store_def)
  have r0: "running init = 0" by (simp add: init_def acquireLock_def empty_store_def)
  have ex: "execute 0 No_failure (0, empty_store) = Some (0, empty_store)"
    by (simp add: execute_def execute_body_def redis_defs empty_store_def MAX_JOBS_def)
  have t1: "0 < length (tasks (step Tick init)) \<and> in_dispatch (tasks (step Tick init) ! 0)"
    by (simp add: init_def MAX_JOBS_def acquireLock_def empty_store_def)
  have t2: "0 < length (tasks (step Sweep init)) \<and> \<not> in_dispatch (tasks (step Sweep init) ! 0)"
    by (simp add: init_def acquireLock_def empty_store_def)
  have f1: "tasks (step (Run 0 0 Rejects) (step Tick init)) ! 0 = Finished"
    by (simp add: init_def MAX_JOBS_def acquireLock_def empty_store_def)
  note A = running_counts_dispatches [where es = "[Tick, Tick, Tick, Tick, Run 0 0 Rejects]"
      and w = ?w3 and r = 3 and s = empty_store and now = 0 and f = No_failure
      and i = 0 and rp = Rejects and r' = 3 and s' = empty_store]
  note B = running_counts_dispatches [where es = "[]" and w = init and i = 0 and now = 0
      and rp = Rejects and r = 0 and s = empty_store and r' = 0 and s' = empty_store
      and f = No_failure]
  note C = running_counts_dispatches [where es = "[]" and w = "step Tick init" and i = 0
      and now = 0 and rp = Rejects and r = 0 and s = empty_store and r' = 0
      and s' = empty_store and f = No_failure]
  note D = running_counts_dispatches [where es = "[]" and w = "step Sweep init" and i = 0
      and now = 0 and rp = Rejects and r = 0 and s = empty_store and r' = 0
      and s' = empty_store and f = No_failure]
  from A have "running (run [Tick, Tick, Tick, Tick, Run 0 0 Rejects] init)
      = int (length (filter in_dispatch (tasks (run [Tick, Tick, Tick, Tick, Run 0 0 Rejects] init))))"
    by (elim conjE)
  then have 1: "running (run [Tick, Tick, Tick, Tick, Run 0 0 Rejects] init) = 2"
    by (simp add: init_def MAX_JOBS_def acquireLock_def empty_store_def)
  from A have "MAX_JOBS \<le> running ?w3 \<longrightarrow> step Tick ?w3 = ?w3"
    by (elim conjE)
  with r3 have 2: "step Tick ?w3 = ?w3" by (simp add: MAX_JOBS_def)
  from A have "MAX_JOBS \<le> 3 \<longrightarrow> execute 0 No_failure (3, empty_store) = Some (3, empty_store)"
    by (elim conjE)
  then have 7: "execute 0 No_failure (3, empty_store) = Some (3, empty_store)"
    by (simp add: MAX_JOBS_def)
  from B have "running init < MAX_JOBS \<longrightarrow>
        running (step Tick init) = running init + 1 \<and> tasks (step Tick init) = tasks init @ [D_acquire_todo]
        \<and> redis (step Tick init) = redis init"
    by (elim conjE)
  with r0 have 3: "running (step Tick init) = 1" by (simp add: MAX_JOBS_def)
  from C have "0 < length (tasks (step Tick init)) \<and> in_dispatch (tasks (step Tick init) ! 0) \<longrightarrow>
        running (step (Run 0 0 Rejects) (step Tick init))
          = (if tasks (step (Run 0 0 Rejects) (step Tick init)) ! 0 = Finished then running (step Tick init) - 1
             else running (step Tick init))"
    by (elim conjE)
  with t1 f1 3 have 4: "running (step (Run 0 0 Rejects) (step Tick init)) = 0"
    by simp
  from D have "0 < length (tasks (step Sweep init)) \<and> \<not> in_dispatch (tasks (step Sweep init) ! 0) \<longrightarrow>
        running (step (Run 0 0 Rejects) (step Sweep init)) = running (step Sweep init)"
    by (elim conjE)
  with t2 have 5: "running (step (Run 0 0 Rejects) (step Sweep init)) = 0"
    by (simp add: init_def acquireLock_def empty_store_def)
  from 1 2 3 4 5 ex 7 show ?thesis by (intro conjI)
qed

text \<open>
  Claim C3, as the code has it. In every reachable state a record waiting in
  \<^verbatim>\<open>todo\<close> carries fewer than 3 tries and a record in \<^verbatim>\<open>processing\<close> at most 3, so a
  record whose \<^verbatim>\<open>tries\<close> has reached 3 is never claimed again; the sweeper, on a stale
  head, requeues it when its \<^verbatim>\<open>tries\<close> is below 3 and pops it for good otherwise.
  In an orderly run (every record a submission appends has an id that no queued
  record has, and no lock key expires under its holder) the records of one id are
  one job, and the claim transactions of a job since its submission number at most 3.
\<close>

theorem claims_bounded:
  "(\<forall>j \<in> set (todo (redis (run es init))). 0 \<le> attempts j \<and> attempts j < 3)
   \<and> (\<forall>j \<in> set (processing (redis (run es init))). 1 \<le> attempts j \<and> attempts j \<le> 3)
   \<and> (orderly es init \<longrightarrow> claim_count x es init 0 \<le> 3)
   \<and> (\<not> processing_lock s \<and> processing s = p # rest \<and> timestamp p = Some t
        \<and> now - t \<ge> 10 * 60 * 1000 \<and> tries p = Some k \<longrightarrow>
        retry now No_fault s
          = Some (if k < 3 then s\<lparr>todo := todo s @ [p], processing := rest\<rparr>
                  else s\<lparr>processing := rest\<rparr>))"
proof -
  have tb: "tries_bounded (run es init)"
    by (rule tries_bounded_run[OF tries_bounded_init])
  have c0: "counted x 0 (redis init)"
    by (simp add: counted_def init_def empty_store_def)
  have cc: "orderly es init \<longrightarrow> claim_count x es init 0 \<le> 3"
    using claim_count_bounded[OF protocol_ok_init tries_bounded_init c0] by blast
  have sw: "\<not> processing_lock s \<and> processing s = p # rest \<and> timestamp p = Some t
        \<and> now - t \<ge> 10 * 60 * 1000 \<and> tries p = Some k \<longrightarrow>
        retry now No_fault s
          = Some (if k < 3 then s\<lparr>todo := todo s @ [p], processing := rest\<rparr>
                  else s\<lparr>processing := rest\<rparr>)"
    by (auto simp: retry_def redis_defs is_stale_def release_processing_def tries_left_def)
  from tb have l1: "\<forall>j \<in> set (todo (redis (run es init))). 0 \<le> attempts j \<and> attempts j < 3"
    and l2: "\<forall>j \<in> set (processing (redis (run es init))). 1 \<le> attempts j \<and> attempts j \<le> 3"
    by (simp_all add: tries_bounded_def lists_ok_def)
  from l1 l2 cc sw show ?thesis by (intro conjI)
qed

lemmas run_simps =
  init_def empty_store_def post_handler_def redis_defs MAX_JOBS_def queued_ids_def new_job_def
  stamp_def is_stale_def tries_left_def

theorem claims_bounded_witness:
  "orderly [Post ''a'' ''1'' 1, Tick, Run 0 5000 Resolves, Run 0 5001 Resolves,
            Run 0 5002 Resolves] init
   \<and> claim_count ''1'' [Post ''a'' ''1'' 1, Tick, Run 0 5000 Resolves, Run 0 5001 Resolves,
            Run 0 5002 Resolves] init 0 \<le> 3
   \<and> stamp 5001 (new_job ''a'' ''1'')
       \<in> set (processing (redis (run [Post ''a'' ''1'' 1, Tick, Run 0 5000 Resolves,
            Run 0 5001 Resolves, Run 0 5002 Resolves] init)))
   \<and> attempts (stamp 5001 (new_job ''a'' ''1'')) \<le> 3
   \<and> retry 660000 No_fault
       (empty_store\<lparr>processing := [\<lparr>name = ''a'', job_id = ''1'', timestamp = Some 0, tries = Some 3\<rparr>]\<rparr>)
       = Some empty_store"
proof -
  let ?tr = "[Post ''a'' ''1'' 1, Tick, Run 0 5000 Resolves, Run 0 5001 Resolves,
            Run 0 5002 Resolves]"
  let ?p = "\<lparr>name = ''a'', job_id = ''1'', timestamp = Some 0, tries = Some 3\<rparr>"
  let ?s = "empty_store\<lparr>processing := [?p]\<rparr>"
  note T = claims_bounded [where es = ?tr and x = "''1''" and s = ?s and p = ?p and rest = "[]"
      and t = 0 and now = 660000 and k = 3]
  have f: "orderly ?tr init"
    by (simp add: run_simps)
  have m: "stamp 5001 (new_job ''a'' ''1'') \<in> set (processing (redis (run ?tr init)))"
    by (simp add: run_simps)
  have h: "\<not> processing_lock ?s \<and> processing ?s = ?p # [] \<and> timestamp ?p = Some 0
        \<and> (660000::int) - 0 \<ge> 10 * 60 * 1000 \<and> tries ?p = Some 3"
    by (simp add: empty_store_def)
  from T have "\<forall>j \<in> set (processing (redis (run ?tr init))). 1 \<le> attempts j \<and> attempts j \<le> 3"
    by (elim conjE)
  with m have a: "attempts (stamp 5001 (new_job ''a'' ''1'')) \<le> 3" by blast
  from T have "orderly ?tr init \<longrightarrow> claim_count ''1'' ?tr init 0 \<le> 3"
    by (elim conjE)
  with f have c: "claim_count ''1'' ?tr init 0 \<le> 3" by blast
  from T have "\<not> processing_lock ?s \<and> processing ?s = ?p # [] \<and> timestamp ?p = Some 0
        \<and> (660000::int) - 0 \<ge> 10 * 60 * 1000 \<and> tries ?p = Some 3 \<longrightarrow>
        retry 660000 No_fault ?s
          = Some (if (3::int) < 3 then ?s\<lparr>todo := todo ?s @ [?p], processing := []\<rparr>
                  else ?s\<lparr>processing := []\<rparr>)"
    by (elim conjE)
  with h have "retry 660000 No_fault ?s = Some (?s\<lparr>processing := []\<rparr>)"
    by simp
  then have r: "retry 660000 No_fault ?s = Some empty_store"
    by (simp add: empty_store_def)
  from f c m a r show ?thesis by (intro conjI)
qed

text \<open>
  Claim C3 as stated fails in two ways. Two submissions with the same id: each
  record is claimed, requeued by the sweeper and claimed again, four claims of id 1.
  And one submission of id 1 whose \<^verbatim>\<open>todo\<close> lock expires between the first
  dispatcher's \<^verbatim>\<open>lindex\<close> and its transaction: a second dispatcher reads the same
  head, both transactions run (the second overwrites the record of id 2), and each
  of the two records of id 1, requeued, is claimed once more.
\<close>

theorem claims_exceed_three:
  "claim_count ''1''
     [Post ''a'' ''1'' 1, Post ''a'' ''1'' 1, Tick, Tick,
      Run 0 5000 Resolves, Run 0 5001 Resolves, Run 0 5002 Resolves, Run 0 5003 Resolves,
      Run 0 10003 Rejects,
      Run 1 10004 Resolves, Run 1 10005 Resolves, Run 1 10006 Resolves, Run 1 10007 Resolves,
      Run 1 15007 Rejects,
      Sweep, Run 2 700000 Resolves, Run 2 700001 Resolves, Run 2 700002 Resolves,
      Run 2 700003 Resolves,
      Sweep, Run 3 700004 Resolves, Run 3 700005 Resolves, Run 3 700006 Resolves,
      Run 3 700007 Resolves,
      Tick, Tick,
      Run 4 800000 Resolves, Run 4 800001 Resolves, Run 4 800002 Resolves,
      Run 4 800003 Resolves,
      Run 5 800004 Resolves, Run 5 800005 Resolves, Run 5 800006 Resolves] init 0 = 4
   \<and> claim_count ''1''
     [Post ''a'' ''1'' 1, Post ''b'' ''2'' 1, Tick, Tick,
      Run 0 5000 Resolves, Run 0 5001 Resolves, Expire Todo,
      Run 1 15000 Resolves, Run 1 15001 Resolves,
      Run 0 15002 Resolves, Run 1 15003 Resolves,
      Run 0 15004 Resolves, Run 0 20004 Rejects, Run 1 20005 Resolves, Run 1 25005 Rejects,
      Sweep, Run 2 700000 Resolves, Run 2 700001 Resolves, Run 2 700002 Resolves,
      Run 2 700003 Resolves,
      Sweep, Run 3 700004 Resolves, Run 3 700005 Resolves, Run 3 700006 Resolves,
      Run 3 700007 Resolves,
      Tick, Tick,
      Run 4 800000 Resolves, Run 4 800001 Resolves, Run 4 800002 Resolves,
      Run 4 800003 Resolves,
      Run 5 800004 Resolves, Run 5 800005 Resolves, Run 5 800006 Resolves] init 0 = 4"
  by (simp add: run_simps)

text \<open>
  Claim C1, as the code has it. In every reachable state of an orderly run (every
  record a submission appends has an id that no queued record has, and no lock key
  expires while a task is between taking and releasing that lock) the ids in \<^verbatim>\<open>todo\<close>
  and \<^verbatim>\<open>processing\<close> are pairwise distinct, so that no job is in both lists or twice in
  one. In such a state the dispatcher's transaction, when the store runs it, finds at
  the head of \<^verbatim>\<open>todo\<close> the record its copy was stamped from and replaces the two
  lists, in one step, by \<^verbatim>\<open>todo\<close> without its head and \<^verbatim>\<open>processing\<close> with the copy at
  its tail; the sweeper's transaction finds its record at the head of \<^verbatim>\<open>processing\<close>
  and moves it, unchanged, to the tail of \<^verbatim>\<open>todo\<close> likewise.
\<close>

theorem orderly_run_keeps_jobs_apart:
  assumes "orderly es init" and "w = run es init"
  shows "distinct (queued_ids (redis w))
   \<and> job_id ` set (todo (redis w)) \<inter> job_id ` set (processing (redis w)) = {}
   \<and> (i < length (tasks w) \<and> tasks w ! i = D_multi c \<and> rp \<noteq> Rejects \<longrightarrow>
        (\<exists>j rest tm. todo (redis w) = j # rest \<and> c = stamp tm j
           \<and> redis (step (Run i now rp) w)
               = (redis w)\<lparr>todo := rest, processing := processing (redis w) @ [c]\<rparr>))
   \<and> (i < length (tasks w) \<and> tasks w ! i = R_multi p \<and> rp \<noteq> Rejects \<longrightarrow>
        (\<exists>rest. processing (redis w) = p # rest
           \<and> redis (step (Run i now rp) w)
               = (redis w)\<lparr>processing := rest, todo := todo (redis w) @ [p]\<rparr>))"
proof -
  from assms have ok: "protocol_ok w"
    using protocol_ok_runs[OF protocol_ok_init] by simp
  then have d: "distinct (queued_ids (redis w))"
    by (simp add: protocol_ok_def)
  then have x: "job_id ` set (todo (redis w)) \<inter> job_id ` set (processing (redis w)) = {}"
    by (simp add: queued_ids_def)
  have cl: "i < length (tasks w) \<and> tasks w ! i = D_multi c \<and> rp \<noteq> Rejects \<longrightarrow>
        (\<exists>j rest tm. todo (redis w) = j # rest \<and> c = stamp tm j
           \<and> redis (step (Run i now rp) w)
               = (redis w)\<lparr>todo := rest, processing := processing (redis w) @ [c]\<rparr>)"
  proof (intro impI, elim conjE)
    assume i: "i < length (tasks w)" and t: "tasks w ! i = D_multi c" and r: "rp \<noteq> Rejects"
    from ok i have "head_expected (redis w) (tasks w ! i)"
      by (simp add: protocol_ok_def)
    with t obtain j rest tm where h: "todo (redis w) = j # rest" "c = stamp tm j"
      by (auto split: list.splits option.splits)
    with i t r show "\<exists>j rest tm. todo (redis w) = j # rest \<and> c = stamp tm j
           \<and> redis (step (Run i now rp) w)
               = (redis w)\<lparr>todo := rest, processing := processing (redis w) @ [c]\<rparr>"
      by (auto simp: claim_transaction)
  qed
  have rc: "i < length (tasks w) \<and> tasks w ! i = R_multi p \<and> rp \<noteq> Rejects \<longrightarrow>
        (\<exists>rest. processing (redis w) = p # rest
           \<and> redis (step (Run i now rp) w)
               = (redis w)\<lparr>processing := rest, todo := todo (redis w) @ [p]\<rparr>)"
  proof (intro impI, elim conjE)
    assume i: "i < length (tasks w)" and t: "tasks w ! i = R_multi p" and r: "rp \<noteq> Rejects"
    from ok i have "head_expected (redis w) (tasks w ! i)"
      by (simp add: protocol_ok_def)
    with t obtain rest where h: "processing (redis w) = p # rest"
      by (auto split: list.splits)
    with i t r show "\<exists>rest. processing (redis w) = p # rest
           \<and> redis (step (Run i now rp) w)
               = (redis w)\<lparr>processing := rest, todo := todo (redis w) @ [p]\<rparr>"
      by (simp add: reclaim_transaction)
  qed
  from d x cl rc show ?thesis by (intro conjI)
qed

theorem orderly_run_keeps_jobs_apart_witness:
  "orderly [Post ''a'' ''1'' 1, Post ''b'' ''2'' 1, Tick, Run 0 5000 Resolves,
            Run 0 5001 Resolves] init
   \<and> tasks (run [Post ''a'' ''1'' 1, Post ''b'' ''2'' 1, Tick, Run 0 5000 Resolves,
            Run 0 5001 Resolves] init) ! 0 = D_multi (stamp 5001 (new_job ''a'' ''1''))
   \<and> distinct (queued_ids (redis (run [Post ''a'' ''1'' 1, Post ''b'' ''2'' 1, Tick,
            Run 0 5000 Resolves, Run 0 5001 Resolves] init)))
   \<and> job_id ` set (todo (redis (run [Post ''a'' ''1'' 1, Post ''b'' ''2'' 1, Tick,
            Run 0 5000 Resolves, Run 0 5001 Resolves] init)))
      \<inter> job_id ` set (processing (redis (run [Post ''a'' ''1'' 1, Post ''b'' ''2'' 1, Tick,
            Run 0 5000 Resolves, Run 0 5001 Resolves] init))) = {}
   \<and> redis (step (Run 0 5002 Resolves)
       (run [Post ''a'' ''1'' 1, Post ''b'' ''2'' 1, Tick, Run 0 5000 Resolves,
             Run 0 5001 Resolves] init))
       = \<lparr>todo = [new_job ''b'' ''2''], processing = [stamp 5001 (new_job ''a'' ''1'')],
          todo_lock = True, processing_lock = False\<rparr>"
proof -
  let ?tr = "[Post ''a'' ''1'' 1, Post ''b'' ''2'' 1, Tick, Run 0 5000 Resolves,
              Run 0 5001 Resolves]"
  let ?c = "stamp 5001 (new_job ''a'' ''1'')"
  have f: "orderly ?tr init"
    by (simp add: run_simps)
  have t: "0 < length (tasks (run ?tr init)) \<and> tasks (run ?tr init) ! 0 = D_multi ?c
      \<and> Resolves \<noteq> Rejects"
    by (simp add: init_def empty_store_def post_handler_def redis_defs MAX_JOBS_def)
  have s: "redis (run ?tr init) = \<lparr>todo = [new_job ''a'' ''1'', new_job ''b'' ''2''],
          processing = [], todo_lock = True, processing_lock = False\<rparr>"
    by (simp add: init_def empty_store_def post_handler_def redis_defs MAX_JOBS_def)
  note T = orderly_run_keeps_jobs_apart [OF f refl, where i = 0 and c = ?c and now = 5002
      and p = ?c and rp = Resolves]
  from T have d: "distinct (queued_ids (redis (run ?tr init)))"
    by (elim conjE)
  from T have x: "job_id ` set (todo (redis (run ?tr init)))
      \<inter> job_id ` set (processing (redis (run ?tr init))) = {}"
    by (elim conjE)
  from T have "0 < length (tasks (run ?tr init)) \<and> tasks (run ?tr init) ! 0 = D_multi ?c
        \<and> Resolves \<noteq> Rejects \<longrightarrow>
        (\<exists>j rest tm. todo (redis (run ?tr init)) = j # rest \<and> ?c = stamp tm j
           \<and> redis (step (Run 0 5002 Resolves) (run ?tr init))
               = (redis (run ?tr init))\<lparr>todo := rest,
                    processing := processing (redis (run ?tr init)) @ [?c]\<rparr>)"
    by (elim conjE)
  with t obtain j rest where jr: "todo (redis (run ?tr init)) = j # rest"
    and st: "redis (step (Run 0 5002 Resolves) (run ?tr init))
               = (redis (run ?tr init))\<lparr>todo := rest,
                    processing := processing (redis (run ?tr init)) @ [?c]\<rparr>"
    by blast
  from jr s have "rest = [new_job ''b'' ''2'']" by simp
  with st s have r: "redis (step (Run 0 5002 Resolves) (run ?tr init))
       = \<lparr>todo = [new_job ''b'' ''2''], processing = [?c],
          todo_lock = True, processing_lock = False\<rparr>"
    by simp
  from t have t': "tasks (run ?tr init) ! 0 = D_multi ?c" by blast
  from f t' d x r show ?thesis by (intro conjI)
qed

text \<open>
  Claim C1 as stated fails in two ways. Two submissions carry the same id: after the
  first is claimed, id 1 is in \<^verbatim>\<open>processing\<close> and, on the second record, in \<^verbatim>\<open>todo\<close>.
  And, with two submissions of different ids, the \<^verbatim>\<open>todo\<close> lock of the first
  dispatcher expires between its \<^verbatim>\<open>lindex\<close> and its transaction: a second dispatcher
  takes the lock and reads the same head, the first transaction moves the head, and
  the second overwrites the next record with its copy and moves that. Id 1 is then
  twice in \<^verbatim>\<open>processing\<close>, and the record of id 2, never executed, is in neither list.
\<close>

theorem job_in_both_lists_or_in_neither:
  "''1'' \<in> job_id ` set (todo (redis (run
      [Post ''a'' ''1'' 1, Post ''a'' ''1'' 1, Tick,
       Run 0 5000 Resolves, Run 0 5001 Resolves, Run 0 5002 Resolves] init)))
   \<and> ''1'' \<in> job_id ` set (processing (redis (run
      [Post ''a'' ''1'' 1, Post ''a'' ''1'' 1, Tick,
       Run 0 5000 Resolves, Run 0 5001 Resolves, Run 0 5002 Resolves] init)))
   \<and> redis (run
      [Post ''a'' ''1'' 1, Post ''b'' ''2'' 1, Tick, Tick,
       Run 0 5000 Resolves, Run 0 5001 Resolves, Expire Todo,
       Run 1 15000 Resolves, Run 1 15001 Resolves,
       Run 0 15002 Resolves, Run 1 15003 Resolves] init)
     = \<lparr>todo = [],
        processing = [stamp 5001 (new_job ''a'' ''1''), stamp 15001 (new_job ''a'' ''1'')],
        todo_lock = True, processing_lock = False\<rparr>
   \<and> ''2'' \<notin> job_id ` set (todo (redis (run
      [Post ''a'' ''1'' 1, Post ''b'' ''2'' 1, Tick, Tick,
       Run 0 5000 Resolves, Run 0 5001 Resolves, Expire Todo,
       Run 1 15000 Resolves, Run 1 15001 Resolves,
       Run 0 15002 Resolves, Run 1 15003 Resolves] init)))
   \<and> ''2'' \<notin> job_id ` set (processing (redis (run
      [Post ''a'' ''1'' 1, Post ''b'' ''2'' 1, Tick, Tick,
       Run 0 5000 Resolves, Run 0 5001 Resolves, Expire Todo,
       Run 1 15000 Resolves, Run 1 15001 Resolves,
       Run 0 15002 Resolves, Run 1 15003 Resolves] init)))"
  by (simp add: run_simps)






text \<open>
  Claim C7, as the code has it. The submit handler builds a record with the two
  fields name and id and nothing else: no \<^verbatim>\<open>timestamp\<close>, and no \<^verbatim>\<open>tries\<close> field
  either (absent, not 0). Each time the store runs the \<^verbatim>\<open>rpush\<close>, this record is
  appended at the tail of \<^verbatim>\<open>todo\<close>; \<^verbatim>\<open>processing\<close> and the two lock keys are as before.
  So a call whose \<^verbatim>\<open>rpush\<close> is run once makes \<^verbatim>\<open>todo\<close> one longer and changes nothing
  else.
\<close>

theorem post_appends_new_job:
  "new_job n i = \<lparr>name = n, job_id = i, timestamp = None, tries = None\<rparr>
   \<and> post_handler 1 n i s = s\<lparr>todo := todo s @ [new_job n i]\<rparr>
   \<and> length (todo (post_handler 1 n i s)) = length (todo s) + 1
   \<and> todo (post_handler k n i s) = todo s @ replicate k (new_job n i)
   \<and> processing (post_handler k n i s) = processing s
   \<and> todo_lock (post_handler k n i s) = todo_lock s
   \<and> processing_lock (post_handler k n i s) = processing_lock s"
proof -
  have "post_handler 1 n i s = s\<lparr>todo := todo s @ [new_job n i]\<rparr>"
    by (simp add: post_handler_def rpush_def)
  then show ?thesis
    using post_handler_lists [of k n i s] by (simp add: new_job_def)
qed

text \<open>
  Claim C7 as stated fails: the record the handler appends has no \<^verbatim>\<open>tries\<close> field,
  where the claim has a field equal to 0, and the sweeper tells the two apart (it
  would requeue a stale record with \<^verbatim>\<open>tries\<close> 0 and discards one without the field).
  And a call does not always make \<^verbatim>\<open>todo\<close> one longer: an \<^verbatim>\<open>rpush\<close> that never
  reaches the store leaves it as it is, one that the client sends again makes it two
  longer.
\<close>

theorem new_job_has_no_tries:
  "todo (post_handler 1 ''a'' ''1'' empty_store)
     = [\<lparr>name = ''a'', job_id = ''1'', timestamp = None, tries = None\<rparr>]
   \<and> tries (new_job ''a'' ''1'') \<noteq> Some 0
   \<and> \<not> tries_left (new_job ''a'' ''1'')
   \<and> tries_left ((new_job ''a'' ''1'')\<lparr>tries := Some 0\<rparr>)
   \<and> post_handler 0 ''a'' ''1'' empty_store = empty_store
   \<and> length (todo (post_handler 2 ''a'' ''1'' empty_store)) = 2"
  by (simp add: post_handler_def rpush_def new_job_def empty_store_def tries_left_def
      numeral_2_eq_2)

end
